theory Spec2Isabelle
  imports Main "HOL-Library.Sublist"
begin

section \<open>fix\_calendar\_permissions.py: text model\<close>

text \<open>
  The script reads an Xcode project file as text, inserts two permission keys after every
  match of a fixed regular expression and writes the text back. Text is modelled as
  \<^typ>\<open>string\<close>, one \<^typ>\<open>char\<close> per byte of the UTF-8 encoding: every character of
  the pattern and of the inserted keys is ASCII, and no byte of a multi-byte UTF-8 sequence
  equals an ASCII byte, so matching on bytes coincides with matching on code points for
  decodable files.
\<close>

definition dquote :: char where
  "dquote = CHR 0x22"

definition newline :: char where
  "newline = CHR 0x0A"

definition tab :: char where
  "tab = CHR 0x09"

definition carriage_return :: char where
  "carriage_return = CHR 0x0D"

subsection \<open>The constants of \<^verbatim>\<open>add_calendar_permissions\<close>\<close>

definition calendar_usage_desc :: string where
  "calendar_usage_desc =
     ''This app needs access to your calendar to import events for tracking and visualization.''"

definition calendar_full_access_desc :: string where
  "calendar_full_access_desc =
     ''This app needs full access to your calendar to import events for tracking and visualization.''"

text \<open>
  The f-string \<^verbatim>\<open>calendar_keys\<close>: two lines, each starting with four tab characters, joined
  by one line break, with no line break at the end.
\<close>

definition calendar_keys :: string where
  "calendar_keys =
     [tab, tab, tab, tab] @ ''INFOPLIST_KEY_NSCalendarsUsageDescription = '' @ [dquote]
       @ calendar_usage_desc @ [dquote] @ '';'' @ [newline]
     @ [tab, tab, tab, tab] @ ''INFOPLIST_KEY_NSCalendarsFullAccessUsageDescription = ''
       @ [dquote] @ calendar_full_access_desc @ [dquote] @ '';''"

subsection \<open>The pattern\<close>

text \<open>
  \<^verbatim>\<open>pattern = r'(INFOPLIST_KEY_UISupportedInterfaceOrientations_iPhone = "[^"]+";)'\<close>:
  a literal ending in a double quote, one or more characters other than the double quote,
  and the literal \<^verbatim>\<open>";\<close>. Group 1 is the whole match.
\<close>

definition pattern_head :: string where
  "pattern_head = ''INFOPLIST_KEY_UISupportedInterfaceOrientations_iPhone = '' @ [dquote]"

definition pattern_tail :: string where
  "pattern_tail = [dquote] @ '';''"

fun strip_prefix :: "string \<Rightarrow> string \<Rightarrow> string option" where
  "strip_prefix [] s = Some s"
| "strip_prefix (p # ps) [] = None"
| "strip_prefix (p # ps) (c # cs) = (if p = c then strip_prefix ps cs else None)"

text \<open>
  \<open>match_at s\<close> is the regular-expression engine's attempt to match the pattern at the
  start of \<open>s\<close>; it returns the matched text. The class \<^verbatim>\<open>[^"]+\<close> is greedy, so it takes
  the whole run of characters up to the next double quote (line breaks included). Giving
  characters back cannot help: the next pattern character is the double quote, and every
  character of the run is not one.
\<close>

definition match_at :: "string \<Rightarrow> string option" where
  "match_at s =
     (case strip_prefix pattern_head s of
        None \<Rightarrow> None
      | Some r \<Rightarrow>
          (let v = takeWhile (\<lambda>c. c \<noteq> dquote) r;
               t = dropWhile (\<lambda>c. c \<noteq> dquote) r
           in if v = [] then None
              else (case strip_prefix pattern_tail t of
                      None \<Rightarrow> None
                    | Some _ \<Rightarrow> Some (pattern_head @ v @ pattern_tail))))"

subsection \<open>The substitution\<close>

text \<open>
  \<^verbatim>\<open>replace_func\<close> increments the \<^verbatim>\<open>nonlocal\<close> counter and returns group 1, a line break
  and \<^verbatim>\<open>calendar_keys\<close>. The counter is passed in and returned.
\<close>

definition replace_func :: "string \<Rightarrow> nat \<Rightarrow> string \<times> nat" where
  "replace_func m replacements = (m @ [newline] @ calendar_keys, replacements + 1)"

text \<open>
  \<^verbatim>\<open>re.sub(pattern, repl, content)\<close> with a callable \<open>repl\<close>: scan from the left; where the
  pattern matches, emit the callback's result and go on after the match; elsewhere copy
  one character and move one position on. The pattern matches no empty string.
\<close>

function re_sub :: "(string \<Rightarrow> nat \<Rightarrow> string \<times> nat) \<Rightarrow> string \<Rightarrow> nat \<Rightarrow> string \<times> nat" where
  "re_sub repl [] n = ([], n)"
| "re_sub repl (c # cs) n =
     (case match_at (c # cs) of
        None \<Rightarrow> (case re_sub repl cs n of (out, n') \<Rightarrow> (c # out, n'))
      | Some m \<Rightarrow>
          (case repl m n of (r, n1) \<Rightarrow>
             (case re_sub repl (drop (length m) (c # cs)) n1 of (out, n2) \<Rightarrow> (r @ out, n2))))"
  by pat_completeness auto
termination
proof (relation "measure (\<lambda>(repl, s, n). length s)")
  show "wf (measure (\<lambda>(repl, s, n). length s))" by simp
next
  fix repl :: "string \<Rightarrow> nat \<Rightarrow> string \<times> nat" and c :: char and cs :: string and n :: nat
  show "((repl, cs, n), (repl, c # cs, n)) \<in> measure (\<lambda>(repl, s, n). length s)" by simp
next
  fix repl :: "string \<Rightarrow> nat \<Rightarrow> string \<times> nat"
    and c :: char and cs m :: string and n n1 :: nat
  assume "match_at (c # cs) = Some m"
  then have "m \<noteq> []"
    by (auto simp: match_at_def pattern_head_def Let_def split: option.splits if_splits)
  then have "0 < length m" by simp
  then show "((repl, drop (length m) (c # cs), n1), (repl, c # cs, n)) \<in> measure (\<lambda>(repl, s, n). length s)"
    by simp
qed

section \<open>The file system and the script\<close>

text \<open>
  The environment of the script: regular files with their bytes and two permission bits, a
  journal of the file operations that were carried out, in order, the lines printed, and
  what the operating system refuses. The permission bits are the part of the operating
  system's decision that the script itself changes (\<^verbatim>\<open>shutil.copy2\<close> copies them). Everything
  else it decides by (a directory that may not be written or searched, a file of another
  owner, a locked file, a read-only volume) is \<open>refuses\<close>: for each operation the exception
  it raises, if any; it does not change during a run. A write that fails after the file was
  opened (a full disk) is outside the model.
\<close>

record regular_file =
  bytes :: string
  readable :: bool
  writable :: bool

datatype event =
    Copied string string
  | Read_text string
  | Wrote_text string string

datatype operation =
    Open_read string
  | Open_write string
  | Copy_stat string

text \<open>
  One constructor for each group of \<^verbatim>\<open>print\<close> calls, with the values the message is
  formatted from; the wording of the messages is not modelled.
\<close>

datatype message =
    Fixing_calendar_permissions
  | Created_backup_at string
  | Could_not_find_pattern
  | Added_to_build_configurations nat
  | Added_keys
  | Could_not_find_file string
  | Success_next_steps
  | Failed_backup_preserved

datatype py_exception = FileNotFoundError | PermissionError | OSError | UnicodeDecodeError

record world =
  files :: "string \<rightharpoonup> regular_file"
  journal :: "event list"
  stdout :: "message list"
  refuses :: "operation \<Rightarrow> py_exception option"

type_synonym 'a io = "world \<Rightarrow> (py_exception + 'a) \<times> world"

definition print :: "message \<Rightarrow> world \<Rightarrow> world" where
  "print msg w = w\<lparr>stdout := stdout w @ [msg]\<rparr>"

text \<open>
  \<^verbatim>\<open>shutil.copy2(src, dst)\<close> is \<^verbatim>\<open>copyfile(src, dst)\<close> followed by \<^verbatim>\<open>copystat(src, dst)\<close>.
  \<^verbatim>\<open>copyfile\<close> opens \<open>src\<close> for reading, then \<open>dst\<close> for writing (created when absent,
  truncated when present; its permission bits stay) and copies the bytes. \<^verbatim>\<open>copystat\<close>
  sets the times and the permission bits of \<open>dst\<close> to those of \<open>src\<close>; it raises when
  the operating system refuses, with the bytes already copied.
\<close>

definition copyfile :: "string \<Rightarrow> string \<Rightarrow> unit io" where
  "copyfile src dst w =
     (case files w src of
        None \<Rightarrow> (Inl FileNotFoundError, w)
      | Some f \<Rightarrow>
          if \<not> readable f then (Inl PermissionError, w)
          else (case refuses w (Open_read src) of
                  Some e \<Rightarrow> (Inl e, w)
                | None \<Rightarrow>
                    if (case files w dst of None \<Rightarrow> False | Some d \<Rightarrow> \<not> writable d)
                    then (Inl PermissionError, w)
                    else (case refuses w (Open_write dst) of
                            Some e \<Rightarrow> (Inl e, w)
                          | None \<Rightarrow>
                              (Inr (),
                               w\<lparr>files := (files w)(dst \<mapsto>
                                     (case files w dst of
                                        None \<Rightarrow> \<lparr>bytes = bytes f, readable = True, writable = True\<rparr>
                                      | Some d \<Rightarrow> d\<lparr>bytes := bytes f\<rparr>)),
                                  journal := journal w @ [Copied src dst]\<rparr>))))"

definition copystat :: "string \<Rightarrow> string \<Rightarrow> unit io" where
  "copystat src dst w =
     (case files w src of
        None \<Rightarrow> (Inl FileNotFoundError, w)
      | Some f \<Rightarrow>
          (case files w dst of
             None \<Rightarrow> (Inl FileNotFoundError, w)
           | Some d \<Rightarrow>
               (case refuses w (Copy_stat dst) of
                  Some e \<Rightarrow> (Inl e, w)
                | None \<Rightarrow>
                    (Inr (), w\<lparr>files := (files w)(dst \<mapsto>
                                 d\<lparr>readable := readable f, writable := writable f\<rparr>)\<rparr>))))"

definition shutil_copy2 :: "string \<Rightarrow> string \<Rightarrow> unit io" where
  "shutil_copy2 src dst w =
     (case copyfile src dst w of
        (Inl e, w1) \<Rightarrow> (Inl e, w1)
      | (Inr _, w1) \<Rightarrow> copystat src dst w1)"

text \<open>
  The file is decoded with the locale's encoding, which is UTF-8 on the systems the script
  is written for. The decoder is strict: it accepts the well-formed byte sequences of the
  Unicode standard and raises on everything else (a stray continuation byte, an overlong
  form, a surrogate, a code point above \<^verbatim>\<open>U+10FFFF\<close>, a sequence cut short).
\<close>

definition between :: "nat \<Rightarrow> nat \<Rightarrow> char \<Rightarrow> bool" where
  "between lo hi c = (lo \<le> of_char c \<and> of_char c \<le> (hi :: nat))"

fun utf8_valid :: "string \<Rightarrow> bool" where
  "utf8_valid [] = True"
| "utf8_valid [a] = between 0x00 0x7F a"
| "utf8_valid [a, b] =
     (if between 0x00 0x7F a then utf8_valid [b]
      else between 0xC2 0xDF a \<and> between 0x80 0xBF b)"
| "utf8_valid [a, b, c] =
     (if between 0x00 0x7F a then utf8_valid [b, c]
      else if between 0xC2 0xDF a then between 0x80 0xBF b \<and> utf8_valid [c]
      else (between 0xE0 0xE0 a \<and> between 0xA0 0xBF b \<or>
            between 0xE1 0xEC a \<and> between 0x80 0xBF b \<or>
            between 0xED 0xED a \<and> between 0x80 0x9F b \<or>
            between 0xEE 0xEF a \<and> between 0x80 0xBF b) \<and> between 0x80 0xBF c)"
| "utf8_valid (a # b # c # d # s) =
     (if between 0x00 0x7F a then utf8_valid (b # c # d # s)
      else if between 0xC2 0xDF a then between 0x80 0xBF b \<and> utf8_valid (c # d # s)
      else if between 0xE0 0xEF a
      then (between 0xE0 0xE0 a \<and> between 0xA0 0xBF b \<or>
            between 0xE1 0xEC a \<and> between 0x80 0xBF b \<or>
            between 0xED 0xED a \<and> between 0x80 0x9F b \<or>
            between 0xEE 0xEF a \<and> between 0x80 0xBF b) \<and> between 0x80 0xBF c \<and>
           utf8_valid (d # s)
      else (between 0xF0 0xF0 a \<and> between 0x90 0xBF b \<or>
            between 0xF1 0xF3 a \<and> between 0x80 0xBF b \<or>
            between 0xF4 0xF4 a \<and> between 0x80 0x8F b) \<and>
           between 0x80 0xBF c \<and> between 0x80 0xBF d \<and> utf8_valid s)"

text \<open>
  Text mode with the default \<^verbatim>\<open>newline=None\<close> reads with universal newlines: \<^verbatim>\<open>\r\n\<close> and a
  lone \<^verbatim>\<open>\r\<close> arrive as \<^verbatim>\<open>\n\<close>.
\<close>

fun universal_newlines :: "string \<Rightarrow> string" where
  "universal_newlines [] = []"
| "universal_newlines [c] = (if c = carriage_return then [newline] else [c])"
| "universal_newlines (c # d # s) =
     (if c = carriage_return
      then (if d = newline then newline # universal_newlines s
            else newline # universal_newlines (d # s))
      else c # universal_newlines (d # s))"

text \<open>
  \<^verbatim>\<open>with open(path, 'r') as f: content = f.read()\<close>: the open may fail, and so may the
  decoding of the bytes.
\<close>

definition read_text :: "string \<Rightarrow> string io" where
  "read_text path w =
     (case files w path of
        None \<Rightarrow> (Inl FileNotFoundError, w)
      | Some f \<Rightarrow>
          if \<not> readable f then (Inl PermissionError, w)
          else (case refuses w (Open_read path) of
                  Some e \<Rightarrow> (Inl e, w)
                | None \<Rightarrow>
                    if \<not> utf8_valid (bytes f) then (Inl UnicodeDecodeError, w)
                    else (Inr (universal_newlines (bytes f)),
                          w\<lparr>journal := journal w @ [Read_text path]\<rparr>)))"

text \<open>
  \<^verbatim>\<open>with open(path, 'w') as f: f.write(data)\<close>: the file is truncated and rewritten, its
  permission bits stay; a missing file is created. The text written came out of the decoder
  and of ASCII constants, so encoding it does not fail. On the POSIX systems the script is
  written for, \<^verbatim>\<open>\n\<close> is written as it is.
\<close>

definition write_text :: "string \<Rightarrow> string \<Rightarrow> unit io" where
  "write_text path data w =
     (if (case files w path of None \<Rightarrow> False | Some f \<Rightarrow> \<not> writable f)
      then (Inl PermissionError, w)
      else (case refuses w (Open_write path) of
              Some e \<Rightarrow> (Inl e, w)
            | None \<Rightarrow>
                (Inr (),
                 w\<lparr>files := (files w)(path \<mapsto>
                       (case files w path of
                          None \<Rightarrow> \<lparr>bytes = data, readable = True, writable = True\<rparr>
                        | Some f \<Rightarrow> f\<lparr>bytes := data\<rparr>)),
                    journal := journal w @ [Wrote_text path data]\<rparr>)))"

definition backup_suffix :: string where
  "backup_suffix = ''.backup''"

text \<open>\<^verbatim>\<open>add_calendar_permissions(project_file_path)\<close>; an exception ends it where it is raised.\<close>

definition add_calendar_permissions :: "string \<Rightarrow> bool io" where
  "add_calendar_permissions project_file_path w =
     (let backup_path = project_file_path @ backup_suffix in
      case shutil_copy2 project_file_path backup_path w of
        (Inl e, w1) \<Rightarrow> (Inl e, w1)
      | (Inr _, w1) \<Rightarrow>
          (case read_text project_file_path (print (Created_backup_at backup_path) w1) of
             (Inl e, w2) \<Rightarrow> (Inl e, w2)
           | (Inr content, w2) \<Rightarrow>
               (case re_sub replace_func content 0 of
                  (modified_content, replacements) \<Rightarrow>
                    if replacements = 0 then (Inr False, print Could_not_find_pattern w2)
                    else (case write_text project_file_path modified_content w2 of
                            (Inl e, w3) \<Rightarrow> (Inl e, w3)
                          | (Inr _, w3) \<Rightarrow>
                              (Inr True,
                               print Added_keys
                                 (print (Added_to_build_configurations replacements) w3))))))"

definition project_path :: string where
  "project_path = ''trendy.xcodeproj/project.pbxproj''"

text \<open>\<^verbatim>\<open>Path.exists()\<close>\<close>

definition path_exists :: "string \<Rightarrow> world \<Rightarrow> bool" where
  "path_exists path w = (files w path \<noteq> None)"

definition main :: "int io" where
  "main w0 =
     (let w = print Fixing_calendar_permissions w0 in
      if \<not> path_exists project_path w
      then (Inr 1, print (Could_not_find_file project_path) w)
      else (case add_calendar_permissions project_path w of
              (Inl e, w') \<Rightarrow> (Inl e, w')
            | (Inr ok, w') \<Rightarrow>
                if ok then (Inr 0, print Success_next_steps w')
                else (Inr 1, print Failed_backup_preserved w')))"

text \<open>
  \<^verbatim>\<open>exit(main())\<close>: the process ends with the code \<open>main\<close> returns; an exception that nothing
  catches ends the interpreter with code 1.
\<close>

definition script :: "world \<Rightarrow> int \<times> world" where
  "script w = (case main w of (Inl e, w') \<Rightarrow> (1, w') | (Inr code, w') \<Rightarrow> (code, w'))"

section \<open>Texts as gaps and anchor statements\<close>

text \<open>
  The vocabulary of the properties. An anchor statement is the pattern's literal head, a
  value and the literal tail; a value is valid when it is not empty and holds no double
  quote. \<open>weave blk g xs\<close> is the text that starts with the gap \<open>g\<close> and goes on, for each
  pair \<open>(v, g')\<close> of \<open>xs\<close>, with the anchor statement of value \<open>v\<close>, the block \<open>blk\<close> and the
  gap \<open>g'\<close>. With the empty block this is an input text cut at its anchor statements.
\<close>

definition anchor :: "string \<Rightarrow> string" where
  "anchor v = pattern_head @ v @ pattern_tail"

definition valid_value :: "string \<Rightarrow> bool" where
  "valid_value v = (v \<noteq> [] \<and> dquote \<notin> set v)"

definition insertion :: string where
  "insertion = [newline] @ calendar_keys"

fun body :: "string \<Rightarrow> (string \<times> string) list \<Rightarrow> string" where
  "body blk [] = []"
| "body blk ((v, g) # xs) = anchor v @ blk @ g @ body blk xs"

definition weave :: "string \<Rightarrow> string \<Rightarrow> (string \<times> string) list \<Rightarrow> string" where
  "weave blk g xs = g @ body blk xs"

text \<open>
  \<open>no_anchor_starts g rest\<close>: in the text \<open>g @ rest\<close>, the pattern matches at no position of
  \<open>g\<close>. \<open>scan_ok g xs\<close>: the anchor statements of \<open>weave [] g xs\<close> are the non-overlapping
  occurrences of the pattern, from the left: every value is valid and no gap holds the start
  of a match.
\<close>

fun no_anchor_starts :: "string \<Rightarrow> string \<Rightarrow> bool" where
  "no_anchor_starts [] rest = True"
| "no_anchor_starts (c # g) rest = (match_at (c # g @ rest) = None \<and> no_anchor_starts g rest)"

fun scan_ok :: "string \<Rightarrow> (string \<times> string) list \<Rightarrow> bool" where
  "scan_ok g [] = no_anchor_starts g []"
| "scan_ok g ((v, g') # xs) =
     (no_anchor_starts g (body [] ((v, g') # xs)) \<and> valid_value v \<and> scan_ok g' xs)"

text \<open>
  \<open>clash p s\<close>: \<open>p\<close> and \<open>s\<close> differ at a position both have, so \<open>p\<close> is a prefix of no
  extension of \<open>s\<close>. \<open>all_clash p s\<close>: this holds for every non-empty suffix of \<open>s\<close>.
\<close>

fun clash :: "string \<Rightarrow> string \<Rightarrow> bool" where
  "clash [] s = False"
| "clash (a # p) [] = False"
| "clash (a # p) (b # s) = (a \<noteq> b \<or> clash p s)"

fun all_clash :: "string \<Rightarrow> string \<Rightarrow> bool" where
  "all_clash p [] = True"
| "all_clash p (c # s) = (clash p (c # s) \<and> all_clash p s)"

text \<open>The backup path is free or holds a file that may be written.\<close>

definition backup_writable :: "string \<Rightarrow> world \<Rightarrow> bool" where
  "backup_writable path w =
     (case files w (path @ backup_suffix) of None \<Rightarrow> True | Some d \<Rightarrow> writable d)"

text \<open>Lines and their indentation: the text split at line breaks, and a line's leading tabs and spaces.\<close>

fun split_lines :: "string \<Rightarrow> string list" where
  "split_lines [] = [[]]"
| "split_lines (c # s) =
     (if c = newline then [] # split_lines s
      else (case split_lines s of [] \<Rightarrow> [[c]] | l # ls \<Rightarrow> (c # l) # ls))"

definition is_indent :: "char \<Rightarrow> bool" where
  "is_indent c = (c = tab \<or> c = CHR '' '')"

definition indent_of :: "string \<Rightarrow> string" where
  "indent_of line = takeWhile is_indent line"

definition four_tabs :: string where
  "four_tabs = [tab, tab, tab, tab]"

text \<open>The two lines of \<^verbatim>\<open>calendar_keys\<close>.\<close>

definition usage_line :: string where
  "usage_line = four_tabs @ ''INFOPLIST_KEY_NSCalendarsUsageDescription = '' @ [dquote]
       @ calendar_usage_desc @ [dquote] @ '';''"

definition full_access_line :: string where
  "full_access_line = four_tabs @ ''INFOPLIST_KEY_NSCalendarsFullAccessUsageDescription = ''
       @ [dquote] @ calendar_full_access_desc @ [dquote] @ '';''"

subsection \<open>Sample inputs\<close>

definition sample_value :: string where
  "sample_value = ''UIInterfaceOrientationPortrait''"

definition sample_open :: string where
  "sample_open = [tab, tab, tab] @ ''buildSettings = {'' @ [newline, tab, tab, tab, tab]"

definition sample_close :: string where
  "sample_close = [newline, tab, tab, tab] @ ''};'' @ [newline]"

definition sample_text :: string where
  "sample_text = sample_open @ anchor sample_value @ sample_close"

definition plain_text :: string where
  "plain_text = ''// !$*UTF8*$!'' @ [newline] @ ''{'' @ [newline] @ ''}'' @ [newline]"

text \<open>A project file with Windows line ends, and one that starts with a byte that is not UTF-8.\<close>

definition crlf_text :: string where
  "crlf_text = ''{'' @ [carriage_return, newline] @ four_tabs @ anchor sample_value
     @ [carriage_return, newline] @ ''}'' @ [carriage_return, newline]"

text \<open>What the script leaves of \<open>crlf_text\<close>.\<close>

definition crlf_patched :: string where
  "crlf_patched = ''{'' @ [newline] @ four_tabs @ anchor sample_value @ [newline]
     @ calendar_keys @ [newline] @ ''}'' @ [newline]"


text \<open>
  \<open>os_permits w path\<close>: the operating system refuses none of the operations of
  \<^verbatim>\<open>add_calendar_permissions(path)\<close>.
\<close>

definition os_permits :: "world \<Rightarrow> string \<Rightarrow> bool" where
  "os_permits w path =
     (refuses w (Open_read path) = None \<and>
      refuses w (Open_write (path @ backup_suffix)) = None \<and>
      refuses w (Copy_stat (path @ backup_suffix)) = None \<and>
      refuses w (Open_write path) = None)"

definition file_world :: "string \<Rightarrow> world" where
  "file_world s =
     \<lparr>files = [project_path \<mapsto> \<lparr>bytes = s, readable = True, writable = True\<rparr>],
      journal = [], stdout = [], refuses = (\<lambda>_. None)\<rparr>"

definition empty_world :: world where
  "empty_world = \<lparr>files = Map.empty, journal = [], stdout = [], refuses = (\<lambda>_. None)\<rparr>"




section \<open>Matching\<close>

lemma strip_prefix_Some_iff: "strip_prefix p s = Some r \<longleftrightarrow> s = p @ r"
  by (induction p s rule: strip_prefix.induct) auto

lemma strip_prefix_append: "strip_prefix p (p @ s) = Some s"
  by (simp add: strip_prefix_Some_iff)

lemma match_at_anchor: "valid_value v \<Longrightarrow> match_at (anchor v @ r) = Some (anchor v)"
  by (simp add: match_at_def anchor_def valid_value_def strip_prefix_append pattern_tail_def
      takeWhile_append dropWhile_append  Let_def takeWhile_eq_all_conv split: option.splits)

lemma match_at_SomeD:
  assumes "match_at s = Some m"
  shows "\<exists>v r. valid_value v \<and> m = anchor v \<and> s = m @ r"
proof -
  from assms obtain r where r: "s = pattern_head @ r"
    by (auto simp: match_at_def strip_prefix_Some_iff split: option.splits)
  let ?v = "takeWhile (\<lambda>c. c \<noteq> dquote) r"
  let ?t = "dropWhile (\<lambda>c. c \<noteq> dquote) r"
  from assms r have v: "?v \<noteq> []" and "\<exists>q. ?t = pattern_tail @ q" and m: "m = anchor ?v"
    by (auto simp: match_at_def strip_prefix_Some_iff anchor_def Let_def split: option.splits if_splits)
  then obtain q where q: "?t = pattern_tail @ q" by blast
  have "r = ?v @ ?t" by simp
  with q r m have "s = m @ q" by (simp add: anchor_def)
  moreover have "valid_value ?v" using v by (auto simp: valid_value_def dest: set_takeWhileD)
  ultimately show ?thesis using m by blast
qed

text \<open>
  The matcher against the language of the pattern: \<open>match_at s\<close> returns \<open>m\<close> exactly when
  \<open>m\<close> is a prefix of \<open>s\<close> made of the head, a valid value and the tail. So the matcher
  finds a match wherever the pattern has one, and there is at most one at a position.
\<close>

lemma match_at_Some_iff:
  "match_at s = Some m \<longleftrightarrow> (\<exists>v r. valid_value v \<and> m = anchor v \<and> s = m @ r)"
  using match_at_SomeD match_at_anchor by blast

lemma anchor_Cons: "\<exists>c cs. anchor v @ r = c # cs"
  by (simp add: anchor_def pattern_head_def)

lemma re_sub_gap:
  "no_anchor_starts g rest \<Longrightarrow>
   re_sub repl (g @ rest) n = (case re_sub repl rest n of (out, n') \<Rightarrow> (g @ out, n'))"
  by (induction g) (auto split: prod.splits)

lemma re_sub_anchor:
  assumes "valid_value v"
  shows "re_sub repl (anchor v @ r) n =
    (case repl (anchor v) n of (x, n1) \<Rightarrow>
       (case re_sub repl r n1 of (out, n2) \<Rightarrow> (x @ out, n2)))"
proof -
  obtain c cs where c: "anchor v @ r = c # cs" using anchor_Cons by blast
  have "match_at (c # cs) = Some (anchor v)" using match_at_anchor[OF assms, of r] c by simp
  then have "re_sub repl (c # cs) n = (case repl (anchor v) n of (x, n1) \<Rightarrow>
       (case re_sub repl (drop (length (anchor v)) (c # cs)) n1 of (out, n2) \<Rightarrow> (x @ out, n2)))"
    by simp
  moreover have "drop (length (anchor v)) (c # cs) = r" using c[symmetric] by simp
  ultimately show ?thesis using c by simp
qed

lemma re_sub_weave:
  "scan_ok g xs \<Longrightarrow>
   re_sub replace_func (weave [] g xs) n = (weave insertion g xs, n + length xs)"
proof (induction xs arbitrary: g n)
  case Nil
  then show ?case using re_sub_gap[of g "[]" replace_func n] by (simp add: weave_def)
next
  case (Cons x xs)
  obtain v g' where x: "x = (v, g')" by (cases x)
  from Cons.prems x have gap: "no_anchor_starts g (anchor v @ g' @ body [] xs)"
    and v: "valid_value v" and ok: "scan_ok g' xs" by simp_all
  have "re_sub replace_func (weave [] g' xs) (n + 1) = (weave insertion g' xs, n + 1 + length xs)"
    using Cons.IH[OF ok] .
  moreover have "replace_func (anchor v) n = (anchor v @ insertion, n + 1)"
    by (simp add: replace_func_def insertion_def)
  ultimately show ?case
    using re_sub_gap[OF gap, of replace_func n]
      re_sub_anchor[OF v, of replace_func "g' @ body [] xs" n] x
    by (simp add: weave_def)
qed

lemma split_exists: "\<exists>g xs. s = weave [] g xs \<and> scan_ok g xs"
proof (induction s rule: length_induct)
  case (1 s)
  show ?case
  proof (cases s)
    case Nil
    then have "s = weave [] [] [] \<and> scan_ok [] []" by (simp add: weave_def)
    then show ?thesis by blast
  next
    case (Cons c cs)
    show ?thesis
    proof (cases "match_at s")
      case None
      from 1 Cons obtain g xs where gx: "cs = weave [] g xs" "scan_ok g xs" by auto
      have "scan_ok (c # g) xs"
        using gx None Cons by (cases xs) (auto simp: weave_def)
      moreover have "s = weave [] (c # g) xs" using gx Cons by (simp add: weave_def)
      ultimately show ?thesis by blast
    next
      case (Some m)
      then obtain v r where v: "valid_value v" "m = anchor v" "s = m @ r"
        using match_at_SomeD by blast
      have "length r < length s" using v by (simp add: anchor_def pattern_head_def)
      with 1 obtain g xs where gx: "r = weave [] g xs" "scan_ok g xs" by blast
      have "s = weave [] [] ((v, g) # xs)" using v gx by (simp add: weave_def)
      moreover have "scan_ok [] ((v, g) # xs)" using v gx by simp
      ultimately show ?thesis by blast
    qed
  qed
qed


lemma no_anchor_starts_append:
  "no_anchor_starts (a @ b) r \<longleftrightarrow> no_anchor_starts a (b @ r) \<and> no_anchor_starts b r"
  by (induction a) auto

lemma match_length_bound:
  assumes v: "valid_value v" and u: "valid_value u"
    and eq: "x @ anchor v @ r = anchor u @ q"
  shows "length (anchor u) \<le> length (x @ anchor v)"
proof (rule ccontr)
  assume "\<not> ?thesis"
  then have len: "length x + length v < length u"
    by (simp add: anchor_def)
  let ?k = "length x + length v"
  have "(x @ anchor v @ r) ! (length pattern_head + ?k) = dquote"
    by (simp add: anchor_def nth_append pattern_tail_def)
  moreover have "(anchor u @ q) ! (length pattern_head + ?k) = u ! ?k"
    using len by (simp add: anchor_def nth_append)
  ultimately have "u ! ?k = dquote" using eq by simp
  with len have "dquote \<in> set u" by (metis nth_mem)
  with u show False by (simp add: valid_value_def)
qed

lemma match_at_local:
  assumes v: "valid_value v"
  shows "match_at (x @ anchor v @ r) = None \<Longrightarrow> match_at (x @ anchor v @ r') = None"
proof (rule ccontr)
  assume none: "match_at (x @ anchor v @ r) = None"
  assume "match_at (x @ anchor v @ r') \<noteq> None"
  then obtain m where "match_at (x @ anchor v @ r') = Some m" by blast
  then obtain u q where u: "valid_value u" "m = anchor u" "x @ anchor v @ r' = anchor u @ q"
    using match_at_SomeD by blast
  have "length (anchor u) \<le> length (x @ anchor v)"
    using match_length_bound[OF v u(1) u(3)] .
  moreover from u(3) have "(x @ anchor v) @ r' = anchor u @ q" by simp
  ultimately obtain t where "x @ anchor v = anchor u @ t"
    by (metis append_eq_append_conv_if append_take_drop_id)
  then have e: "x @ anchor v @ r = anchor u @ (t @ r)" by (metis append.assoc)
  have "match_at (anchor u @ (t @ r)) = Some (anchor u)"
    by (rule match_at_anchor[OF u(1)])
  then have "match_at (x @ anchor v @ r) = Some (anchor u)"
    by (simp only: e)
  with none show False by simp
qed

lemma no_anchor_starts_local:
  assumes "valid_value v"
  shows "no_anchor_starts g (anchor v @ r) \<Longrightarrow> no_anchor_starts g (anchor v @ r')"
proof (induction g)
  case Nil
  then show ?case by simp
next
  case (Cons c g)
  then have "match_at ((c # g) @ anchor v @ r) = None" by simp
  then have "match_at ((c # g) @ anchor v @ r') = None" by (rule match_at_local[OF assms])
  with Cons show ?case by simp
qed

lemma clash_strip_prefix: "clash p s \<Longrightarrow> strip_prefix p (s @ r) = None"
  by (induction p s rule: clash.induct) auto

lemma clash_match_at: "clash pattern_head s \<Longrightarrow> match_at (s @ r) = None"
  by (simp add: match_at_def clash_strip_prefix)

lemma all_clash_no_anchor_starts: "all_clash pattern_head g \<Longrightarrow> no_anchor_starts g r"
proof (induction g)
  case Nil
  then show ?case by simp
next
  case (Cons c g)
  from Cons.prems have cl: "clash pattern_head (c # g)" and rest: "all_clash pattern_head g"
    by simp_all
  have "match_at ((c # g) @ r) = None" using cl by (rule clash_match_at)
  then have "match_at (c # g @ r) = None" by simp
  with Cons.IH[OF rest] show ?case by simp
qed

lemma all_clash_insertion: "all_clash pattern_head insertion"
  by (simp add: insertion_def calendar_keys_def pattern_head_def calendar_usage_desc_def
      calendar_full_access_desc_def newline_def tab_def dquote_def)

lemma no_anchor_starts_insertion: "no_anchor_starts insertion r"
  using all_clash_insertion by (rule all_clash_no_anchor_starts)

lemma body_shift: "body [] (map (\<lambda>(v, g). (v, blk @ g)) xs) = body blk xs"
  by (induction xs) auto

lemma body_shift2: "body blk (map (\<lambda>(v, g). (v, blk' @ g)) xs) = body (blk @ blk') xs"
  by (induction xs) auto

lemma scan_ok_patched:
  "scan_ok g xs \<Longrightarrow> scan_ok g (map (\<lambda>(v, g). (v, insertion @ g)) xs)"
proof (induction xs arbitrary: g)
  case Nil
  then show ?case by simp
next
  case (Cons x xs)
  obtain v g' where x: "x = (v, g')" by (cases x)
  from Cons.prems x have gap: "no_anchor_starts g (anchor v @ g' @ body [] xs)"
    and v: "valid_value v" and ok: "scan_ok g' xs" by simp_all
  have 1: "no_anchor_starts g (anchor v @ insertion @ g' @ body insertion xs)"
    using no_anchor_starts_local[OF v gap] .
  have ih: "scan_ok g' (map (\<lambda>(v, g). (v, insertion @ g)) xs)" using Cons.IH[OF ok] .
  have 2: "scan_ok (insertion @ g') (map (\<lambda>(v, g). (v, insertion @ g)) xs)"
  proof (cases xs)
    case Nil
    with ih show ?thesis by (simp add: no_anchor_starts_append no_anchor_starts_insertion)
  next
    case (Cons y ys)
    obtain u h where y: "y = (u, h)" by (cases y)
    with ih Cons show ?thesis by (simp add: no_anchor_starts_append no_anchor_starts_insertion)
  qed
  from 1 2 v x show ?case by (simp add: body_shift)
qed

lemma re_sub_twice:
  assumes "scan_ok g xs"
  shows "re_sub replace_func (weave insertion g xs) n = (weave (insertion @ insertion) g xs, n + length xs)"
proof -
  let ?ys = "map (\<lambda>(v, g). (v, insertion @ g)) xs"
  have "weave insertion g xs = weave [] g ?ys" by (simp add: weave_def body_shift)
  moreover have "re_sub replace_func (weave [] g ?ys) n = (weave insertion g ?ys, n + length ?ys)"
    using re_sub_weave[OF scan_ok_patched[OF assms]] .
  moreover have "weave insertion g ?ys = weave (insertion @ insertion) g xs"
    by (simp add: weave_def body_shift2)
  ultimately show ?thesis by simp
qed

lemma re_sub_no_match: "no_anchor_starts s [] \<Longrightarrow> re_sub repl s n = (s, n)"
  using re_sub_gap[of s "[]" repl n] by simp

lemma length_body: "length (body blk xs) = length (body [] xs) + length xs * length blk"
  by (induction xs) auto

lemma subseq_body: "subseq (body [] xs) (body blk xs)"
proof (induction xs)
  case Nil
  then show ?case by simp
next
  case (Cons x xs)
  obtain v g where x: "x = (v, g)" by (cases x)
  have g: "subseq g g" and a: "subseq (anchor v) (anchor v)" by simp_all
  have "subseq (g @ body [] xs) (g @ body blk xs)"
    by (rule list_emb_append_mono[OF g Cons.IH])
  then have 1: "subseq (g @ body [] xs) (blk @ g @ body blk xs)"
    by (rule list_emb_append2)
  have "subseq (anchor v @ g @ body [] xs) (anchor v @ blk @ g @ body blk xs)"
    by (rule list_emb_append_mono[OF a 1])
  with x show ?case by simp
qed

lemma insertion_nonempty: "insertion \<noteq> []"
  by (simp add: insertion_def)

section \<open>The script on the file system\<close>

lemma ascii_utf8_valid: "\<forall>c\<in>set s. between 0x00 0x7F c \<Longrightarrow> utf8_valid s"
  by (induction s rule: utf8_valid.induct) auto

lemma backup_path_neq: "p @ backup_suffix \<noteq> p"
  by (simp add: backup_suffix_def)

lemma overwrite_all:
  "(d :: regular_file)\<lparr>bytes := b, readable := r, writable := x\<rparr> =
     \<lparr>bytes = b, readable = r, writable = x\<rparr>"
  by (cases d) simp

lemma copy_ok:
  assumes "files w p = Some f" and "readable f" and "backup_writable p w"
    and "refuses w (Open_read p) = None"
    and "refuses w (Open_write (p @ backup_suffix)) = None"
    and "refuses w (Copy_stat (p @ backup_suffix)) = None"
  shows "shutil_copy2 p (p @ backup_suffix) w =
     (Inr (), w\<lparr>files := (files w)(p @ backup_suffix \<mapsto> f),
                journal := journal w @ [Copied p (p @ backup_suffix)]\<rparr>)"
  using assms backup_path_neq[of p]
  by (cases f)
    (auto simp: shutil_copy2_def copyfile_def copystat_def backup_writable_def overwrite_all
      split: option.splits)

lemma copy_raises:
  assumes "files w p = Some f"
    and "\<not> (readable f \<and> backup_writable p w \<and> refuses w (Open_read p) = None \<and>
            refuses w (Open_write (p @ backup_suffix)) = None \<and>
            refuses w (Copy_stat (p @ backup_suffix)) = None)"
  shows "\<exists>e. fst (shutil_copy2 p (p @ backup_suffix) w) = Inl e"
  using assms backup_path_neq[of p]
  by (auto simp: shutil_copy2_def copyfile_def copystat_def backup_writable_def
      split: option.splits)

lemma copy_target_kept: "files (snd (shutil_copy2 p (p @ backup_suffix) w)) p = files w p"
  using backup_path_neq[of p]
  by (auto simp: shutil_copy2_def copyfile_def copystat_def split: option.splits)

lemma acp_copy_raises:
  "fst (shutil_copy2 p (p @ backup_suffix) w) = Inl e \<Longrightarrow>
   add_calendar_permissions p w = (Inl e, snd (shutil_copy2 p (p @ backup_suffix) w))"
  by (cases "shutil_copy2 p (p @ backup_suffix) w")
    (simp add: add_calendar_permissions_def Let_def)

lemma acp_missing:
  "files w p = None \<Longrightarrow> add_calendar_permissions p w = (Inl FileNotFoundError, w)"
  by (simp add: add_calendar_permissions_def shutil_copy2_def copyfile_def)

lemma acp_undecodable:
  assumes "files w p = Some f" and "readable f" and "backup_writable p w"
    and "refuses w (Open_read p) = None"
    and "refuses w (Open_write (p @ backup_suffix)) = None"
    and "refuses w (Copy_stat (p @ backup_suffix)) = None"
    and "\<not> utf8_valid (bytes f)"
  shows "add_calendar_permissions p w =
     (Inl UnicodeDecodeError,
      w\<lparr>files := (files w)(p @ backup_suffix \<mapsto> f),
        journal := journal w @ [Copied p (p @ backup_suffix)],
        stdout := stdout w @ [Created_backup_at (p @ backup_suffix)]\<rparr>)"
  using assms(1,2,4,7) backup_path_neq[of p]
  by (simp add: add_calendar_permissions_def copy_ok[OF assms(1-6)] read_text_def print_def
      Let_def)

lemma acp_no_match:
  assumes "files w p = Some f" and "readable f" and "backup_writable p w"
    and "refuses w (Open_read p) = None"
    and "refuses w (Open_write (p @ backup_suffix)) = None"
    and "refuses w (Copy_stat (p @ backup_suffix)) = None"
    and "utf8_valid (bytes f)"
    and "snd (re_sub replace_func (universal_newlines (bytes f)) 0) = 0"
  shows "add_calendar_permissions p w =
     (Inr False, w\<lparr>files := (files w)(p @ backup_suffix \<mapsto> f),
                   journal := journal w @ [Copied p (p @ backup_suffix), Read_text p],
                   stdout := stdout w @ [Created_backup_at (p @ backup_suffix), Could_not_find_pattern]\<rparr>)"
proof -
  obtain out n where r: "re_sub replace_func (universal_newlines (bytes f)) 0 = (out, n)"
    by (cases "re_sub replace_func (universal_newlines (bytes f)) 0")
  with assms(8) have "n = 0" by simp
  with r assms(1,2,4,7) backup_path_neq[of p] show ?thesis
    by (simp add: add_calendar_permissions_def copy_ok[OF assms(1-6)] read_text_def print_def
        Let_def)
qed

lemma acp_write_raises:
  assumes "files w p = Some f" and "readable f" and "backup_writable p w"
    and "refuses w (Open_read p) = None"
    and "refuses w (Open_write (p @ backup_suffix)) = None"
    and "refuses w (Copy_stat (p @ backup_suffix)) = None"
    and "utf8_valid (bytes f)"
    and "snd (re_sub replace_func (universal_newlines (bytes f)) 0) \<noteq> 0"
    and "\<not> (writable f \<and> refuses w (Open_write p) = None)"
  shows "\<exists>e. add_calendar_permissions p w =
     (Inl e, w\<lparr>files := (files w)(p @ backup_suffix \<mapsto> f),
                   journal := journal w @ [Copied p (p @ backup_suffix), Read_text p],
                   stdout := stdout w @ [Created_backup_at (p @ backup_suffix)]\<rparr>)"
proof -
  obtain out n where r: "re_sub replace_func (universal_newlines (bytes f)) 0 = (out, n)"
    by (cases "re_sub replace_func (universal_newlines (bytes f)) 0")
  with assms(8) have "n \<noteq> 0" by simp
  with r assms(1,2,4,7,9) backup_path_neq[of p] show ?thesis
    by (auto simp: add_calendar_permissions_def copy_ok[OF assms(1-6)] read_text_def print_def
        write_text_def Let_def)
qed

lemma acp_success:
  assumes "files w p = Some f" and "readable f" and "backup_writable p w"
    and "refuses w (Open_read p) = None"
    and "refuses w (Open_write (p @ backup_suffix)) = None"
    and "refuses w (Copy_stat (p @ backup_suffix)) = None"
    and "utf8_valid (bytes f)"
    and "re_sub replace_func (universal_newlines (bytes f)) 0 = (out, n)" and "n \<noteq> 0"
    and "writable f" and "refuses w (Open_write p) = None"
  shows "add_calendar_permissions p w =
     (Inr True, w\<lparr>files := (files w)(p @ backup_suffix \<mapsto> f, p \<mapsto> f\<lparr>bytes := out\<rparr>),
                  journal := journal w @ [Copied p (p @ backup_suffix), Read_text p, Wrote_text p out],
                  stdout := stdout w @ [Created_backup_at (p @ backup_suffix),
                                        Added_to_build_configurations n, Added_keys]\<rparr>)"
  using assms(1,2,4,7,8,9,10,11) backup_path_neq[of p]
  by (simp add: add_calendar_permissions_def copy_ok[OF assms(1-6)] read_text_def print_def
      write_text_def Let_def)

text \<open>What a call that returns tells about the file and the operating system.\<close>

lemma acp_returns_copy:
  assumes "files w p = Some f" and "fst (add_calendar_permissions p w) = Inr ok"
  shows "readable f \<and> backup_writable p w \<and> refuses w (Open_read p) = None \<and>
         refuses w (Open_write (p @ backup_suffix)) = None \<and>
         refuses w (Copy_stat (p @ backup_suffix)) = None \<and> utf8_valid (bytes f)"
proof -
  have c: "readable f \<and> backup_writable p w \<and> refuses w (Open_read p) = None \<and>
         refuses w (Open_write (p @ backup_suffix)) = None \<and>
         refuses w (Copy_stat (p @ backup_suffix)) = None"
  proof (rule ccontr)
    assume "\<not> ?thesis"
    from copy_raises[OF assms(1) this] obtain e
      where "fst (shutil_copy2 p (p @ backup_suffix) w) = Inl e" by blast
    from acp_copy_raises[OF this] assms(2) show False by simp
  qed
  moreover have "utf8_valid (bytes f)"
  proof (rule ccontr)
    assume "\<not> ?thesis"
    with c acp_undecodable[OF assms(1)] assms(2) show False by simp
  qed
  ultimately show ?thesis by blast
qed

lemma acp_returns_True:
  assumes "files w p = Some f" and "fst (add_calendar_permissions p w) = Inr True"
  shows "snd (re_sub replace_func (universal_newlines (bytes f)) 0) \<noteq> 0 \<and>
         writable f \<and> refuses w (Open_write p) = None \<and>
         add_calendar_permissions p w =
           (Inr True,
            w\<lparr>files := (files w)(p @ backup_suffix \<mapsto> f,
                  p \<mapsto> f\<lparr>bytes := fst (re_sub replace_func (universal_newlines (bytes f)) 0)\<rparr>),
              journal := journal w @ [Copied p (p @ backup_suffix), Read_text p,
                  Wrote_text p (fst (re_sub replace_func (universal_newlines (bytes f)) 0))],
              stdout := stdout w @ [Created_backup_at (p @ backup_suffix),
                  Added_to_build_configurations
                    (snd (re_sub replace_func (universal_newlines (bytes f)) 0)),
                  Added_keys]\<rparr>)"
proof -
  note c = acp_returns_copy[OF assms]
  obtain out n where r: "re_sub replace_func (universal_newlines (bytes f)) 0 = (out, n)"
    by (cases "re_sub replace_func (universal_newlines (bytes f)) 0")
  have n: "n \<noteq> 0"
  proof
    assume "n = 0"
    with r have "snd (re_sub replace_func (universal_newlines (bytes f)) 0) = 0" by simp
    with c acp_no_match[OF assms(1)] assms(2) show False by simp
  qed
  have wr: "writable f \<and> refuses w (Open_write p) = None"
  proof (rule ccontr)
    assume a: "\<not> ?thesis"
    from r n have "snd (re_sub replace_func (universal_newlines (bytes f)) 0) \<noteq> 0" by simp
    with c a acp_write_raises[OF assms(1)] assms(2) show False by auto
  qed
  from c wr acp_success[OF assms(1) _ _ _ _ _ _ r n] r n show ?thesis by simp
qed

lemma main_found:
  "files w project_path = Some f \<Longrightarrow>
   main w = (case add_calendar_permissions project_path (print Fixing_calendar_permissions w) of
              (Inl e, w') \<Rightarrow> (Inl e, w')
            | (Inr ok, w') \<Rightarrow>
                if ok then (Inr 0, print Success_next_steps w')
                else (Inr 1, print Failed_backup_preserved w'))"
  by (simp add: main_def path_exists_def print_def Let_def)

lemma print_files [simp]: "files (print m w) = files w"
  and print_journal [simp]: "journal (print m w) = journal w"
  and print_stdout [simp]: "stdout (print m w) = stdout w @ [m]"
  and print_refuses [simp]: "refuses (print m w) = refuses w"
  by (simp_all add: print_def)

lemma backup_writable_print [simp]: "backup_writable p (print m w) = backup_writable p w"
  by (simp add: backup_writable_def)

lemma os_permits_print [simp]: "os_permits (print m w) p = os_permits w p"
  by (simp add: os_permits_def)

subsection \<open>The sample inputs\<close>

lemma sample_scan_ok: "scan_ok sample_open [(sample_value, sample_close)]"
  by (simp add: sample_open_def sample_close_def sample_value_def valid_value_def
      match_at_def pattern_head_def tab_def newline_def dquote_def)

lemma plain_no_anchor: "no_anchor_starts plain_text []"
  by (simp add: plain_text_def match_at_def pattern_head_def newline_def dquote_def)

lemma universal_newlines_id: "carriage_return \<notin> set s \<Longrightarrow> universal_newlines s = s"
  by (induction s rule: universal_newlines.induct) auto

lemma sample_text_weave: "sample_text = weave [] sample_open [(sample_value, sample_close)]"
  by (simp add: sample_text_def weave_def)

lemma sample_text_read: "universal_newlines sample_text = sample_text"
  by (rule universal_newlines_id)
    (simp add: sample_text_def sample_open_def sample_close_def sample_value_def anchor_def
      pattern_head_def pattern_tail_def carriage_return_def tab_def newline_def dquote_def)

lemma plain_text_read: "universal_newlines plain_text = plain_text"
  by (rule universal_newlines_id) (simp add: plain_text_def carriage_return_def newline_def)

lemma sample_text_utf8: "utf8_valid sample_text"
  by (rule ascii_utf8_valid)
    (simp add: sample_text_def sample_open_def sample_close_def sample_value_def anchor_def
      pattern_head_def pattern_tail_def between_def tab_def newline_def dquote_def)

lemma plain_text_utf8: "utf8_valid plain_text"
  by (rule ascii_utf8_valid) (simp add: plain_text_def between_def newline_def)


lemma file_world_simps:
  "files (file_world s) project_path = Some \<lparr>bytes = s, readable = True, writable = True\<rparr>"
  "backup_writable project_path (file_world s)"
  "stdout (file_world s) = []" "journal (file_world s) = []"
  "os_permits (file_world s) project_path"
  by (simp_all add: file_world_def backup_writable_def os_permits_def project_path_def
      backup_suffix_def)

subsection \<open>The exit code\<close>

lemma acp_permitted:
  assumes "files w p = Some f" and "readable f" and "backup_writable p w" and "os_permits w p"
    and "utf8_valid (bytes f)"
    and "re_sub replace_func (universal_newlines (bytes f)) 0 = (out, n)" and "n \<noteq> 0"
    and "writable f"
  shows "add_calendar_permissions p w =
     (Inr True, w\<lparr>files := (files w)(p @ backup_suffix \<mapsto> f, p \<mapsto> f\<lparr>bytes := out\<rparr>),
                  journal := journal w @ [Copied p (p @ backup_suffix), Read_text p, Wrote_text p out],
                  stdout := stdout w @ [Created_backup_at (p @ backup_suffix),
                                        Added_to_build_configurations n, Added_keys]\<rparr>)"
  using assms(4) by (intro acp_success[OF assms(1,2,3) _ _ _ assms(5,6,7,8)])
    (simp_all add: os_permits_def)


lemma script_success:
  assumes "files w project_path = Some f" and "readable f" and "backup_writable project_path w"
    and "os_permits w project_path" and "utf8_valid (bytes f)"
    and "re_sub replace_func (universal_newlines (bytes f)) 0 = (out, n)" and "n \<noteq> 0"
    and "writable f"
  shows "script w =
     (0, w\<lparr>files := (files w)(project_path @ backup_suffix \<mapsto> f, project_path \<mapsto> f\<lparr>bytes := out\<rparr>),
            journal := journal w @ [Copied project_path (project_path @ backup_suffix),
                                    Read_text project_path, Wrote_text project_path out],
            stdout := stdout w @ [Fixing_calendar_permissions,
                                  Created_backup_at (project_path @ backup_suffix),
                                  Added_to_build_configurations n, Added_keys,
                                  Success_next_steps]\<rparr>)"
proof -
  let ?w = "print Fixing_calendar_permissions w"
  have f: "files ?w project_path = Some f" using assms(1) by simp
  have b: "backup_writable project_path ?w" using assms(3) by simp
  have o: "os_permits ?w project_path" using assms(4) by simp
  show ?thesis
    by (simp add: script_def main_found[OF assms(1)]
        acp_permitted[OF f assms(2) b o assms(5,6,7,8)])
qed

subsection \<open>Lengths and subsequences\<close>

lemma length_weave:
  "length (weave blk g xs) = length (weave [] g xs) + length xs * length blk"
  by (simp add: weave_def length_body[of blk])

lemma subseq_weave: "subseq (weave [] g xs) (weave blk g xs)"
proof -
  have "subseq g g" by simp
  from list_emb_append_mono[OF this subseq_body] show ?thesis by (simp add: weave_def)
qed

subsection \<open>The anchor statement with the empty value\<close>

lemma empty_anchor_clash: "all_clash pattern_head (tl (anchor []))"
  by (simp add: anchor_def pattern_head_def pattern_tail_def dquote_def)

lemma empty_anchor_no_match: "match_at (anchor [] @ r) = None"
  by (simp add: match_at_def anchor_def strip_prefix_append pattern_tail_def)

lemma empty_anchor_gap: "no_anchor_starts (anchor []) r"
proof -
  obtain c cs where c: "anchor [] = c # cs" by (cases "anchor []") (simp_all add: anchor_def pattern_head_def)
  have "match_at (c # cs @ r) = None" using empty_anchor_no_match[of r] c by simp
  moreover have "no_anchor_starts cs r"
    using empty_anchor_clash c by (intro all_clash_no_anchor_starts) simp
  ultimately show ?thesis using c by simp
qed

subsection \<open>Lines and indentation\<close>

lemma split_lines_line: "newline \<notin> set a \<Longrightarrow> split_lines a = [a]"
  by (induction a) auto

lemma split_lines_append:
  "newline \<notin> set a \<Longrightarrow> split_lines (a @ newline # s) = a # split_lines s"
  by (induction a) auto

lemma insertion_lines: "insertion = newline # usage_line @ newline # full_access_line"
  by (simp add: insertion_def calendar_keys_def usage_line_def full_access_line_def four_tabs_def)

lemma key_lines:
  "newline \<notin> set usage_line" "newline \<notin> set full_access_line"
  "indent_of usage_line = four_tabs" "indent_of full_access_line = four_tabs"
  by (simp_all add: usage_line_def full_access_line_def four_tabs_def indent_of_def is_indent_def
      calendar_usage_desc_def calendar_full_access_desc_def newline_def tab_def dquote_def)

lemma indent_no_match: "is_indent c \<Longrightarrow> match_at (c # s) = None"
  by (auto simp: is_indent_def match_at_def pattern_head_def tab_def)

lemma indent_gap: "\<forall>c\<in>set ind. is_indent c \<Longrightarrow> no_anchor_starts ind r"
  by (induction ind) (auto simp: indent_no_match)

lemma indent_of_anchor_line:
  assumes "\<forall>c\<in>set ind. is_indent c"
  shows "indent_of (ind @ anchor v) = ind"
proof -
  have "takeWhile is_indent (anchor v) = []"
    by (simp add: anchor_def pattern_head_def is_indent_def tab_def)
  then show ?thesis using assms by (simp add: indent_of_def takeWhile_append2)
qed

lemma anchor_line_no_newline:
  assumes "\<forall>c\<in>set ind. is_indent c" and "newline \<notin> set v"
  shows "newline \<notin> set (ind @ anchor v)"
proof -
  have "newline \<notin> set ind" using assms(1) by (auto simp: is_indent_def newline_def tab_def)
  moreover have "newline \<notin> set (anchor v)"
    using assms(2) by (simp add: anchor_def pattern_head_def pattern_tail_def newline_def dquote_def)
  ultimately show ?thesis by simp
qed

lemma anchor_line_output:
  assumes "\<forall>c\<in>set ind. is_indent c" and "valid_value v"
  shows "fst (re_sub replace_func (ind @ anchor v) 0) = ind @ anchor v @ insertion"
proof -
  have "no_anchor_starts ind (anchor v)" using assms(1) by (rule indent_gap)
  then have "scan_ok ind [(v, [])]" using assms(2) by simp
  from re_sub_weave[OF this, of 0] show ?thesis by (simp add: weave_def)
qed

lemma anchor_line_indents:
  assumes a: "\<forall>c\<in>set ind. is_indent c" and v: "valid_value v" and nl: "newline \<notin> set v"
  shows "map indent_of (split_lines (fst (re_sub replace_func (ind @ anchor v) 0))) =
        [ind, four_tabs, four_tabs]"
proof -
  have out: "fst (re_sub replace_func (ind @ anchor v) 0) =
    (ind @ anchor v) @ newline # usage_line @ newline # full_access_line"
    using anchor_line_output[OF a v] by (simp add: insertion_lines)
  have "split_lines ((ind @ anchor v) @ newline # usage_line @ newline # full_access_line) =
    [ind @ anchor v, usage_line, full_access_line]"
    by (simp only: split_lines_append[OF anchor_line_no_newline[OF a nl]]
        split_lines_append[OF key_lines(1)] split_lines_line[OF key_lines(2)])
  then show ?thesis
    by (simp add: out indent_of_anchor_line[OF a] key_lines)
qed

lemma sample_value_ok: "valid_value sample_value" "newline \<notin> set sample_value"
  by (simp_all add: valid_value_def sample_value_def dquote_def newline_def)

subsection \<open>A file with Windows line ends\<close>

lemma crlf_text_read:
  "universal_newlines crlf_text =
     weave [] (''{'' @ [newline] @ four_tabs) [(sample_value, [newline] @ ''}'' @ [newline])]"
  by (simp add: crlf_text_def weave_def four_tabs_def anchor_def pattern_head_def pattern_tail_def
      sample_value_def carriage_return_def newline_def tab_def dquote_def)

lemma crlf_scan_ok:
  "scan_ok (''{'' @ [newline] @ four_tabs) [(sample_value, [newline] @ ''}'' @ [newline])]"
  by (simp add: four_tabs_def sample_value_def valid_value_def
      match_at_def pattern_head_def tab_def newline_def dquote_def)

lemma crlf_patched_weave:
  "weave insertion (''{'' @ [newline] @ four_tabs) [(sample_value, [newline] @ ''}'' @ [newline])] =
     crlf_patched"
  by (simp add: crlf_patched_def weave_def insertion_def)

lemma crlf_text_utf8: "utf8_valid crlf_text"
  by (rule ascii_utf8_valid)
    (simp add: crlf_text_def four_tabs_def sample_value_def anchor_def
      pattern_head_def pattern_tail_def between_def tab_def newline_def dquote_def
      carriage_return_def)

lemma crlf_patched_no_cr: "carriage_return \<notin> set crlf_patched"
  by (simp add: crlf_patched_def four_tabs_def sample_value_def anchor_def calendar_keys_def
      calendar_usage_desc_def calendar_full_access_desc_def
      pattern_head_def pattern_tail_def tab_def newline_def dquote_def carriage_return_def)

lemma subseq_member: "subseq xs ys \<Longrightarrow> x \<in> set xs \<Longrightarrow> x \<in> set ys"
  by (induction rule: list_emb.induct) auto

section \<open>The claims\<close>

text \<open>
  C1. A text with exactly \<open>N \<ge> 1\<close> non-overlapping occurrences of the pattern is a text
  \<open>weave [] g xs\<close> with \<open>scan_ok g xs\<close> and \<open>N = length xs\<close>. The substitution returns the
  same text with a line break and \<open>calendar_keys\<close> right after each of the \<open>N\<close> anchor
  statements, and the count \<open>N\<close>; run on a decodable file that holds this text and that
  the script is let to copy, read and write, the script writes that output and prints the
  count \<open>N\<close>.
\<close>

theorem patch_inserts_after_every_anchor:
  assumes "scan_ok g xs" and "xs \<noteq> []"
  shows "re_sub replace_func (weave [] g xs) 0 = (weave insertion g xs, length xs) \<and>
    (files w p = Some f \<and> readable f \<and> writable f \<and> backup_writable p w \<and>
     os_permits w p \<and> utf8_valid (bytes f) \<and>
     universal_newlines (bytes f) = weave [] g xs \<longrightarrow>
       fst (add_calendar_permissions p w) = Inr True \<and>
       map_option bytes (files (snd (add_calendar_permissions p w)) p) = Some (weave insertion g xs) \<and>
       stdout (snd (add_calendar_permissions p w)) =
         stdout w @ [Created_backup_at (p @ backup_suffix),
                     Added_to_build_configurations (length xs), Added_keys])"
proof -
  have r: "re_sub replace_func (weave [] g xs) 0 = (weave insertion g xs, length xs)"
    using re_sub_weave[OF assms(1), of 0] by simp
  have n: "length xs \<noteq> 0" using assms(2) by simp
  show ?thesis
  proof (intro conjI impI)
    show "re_sub replace_func (weave [] g xs) 0 = (weave insertion g xs, length xs)" by (rule r)
  next
    assume h: "files w p = Some f \<and> readable f \<and> writable f \<and> backup_writable p w \<and>
      os_permits w p \<and> utf8_valid (bytes f) \<and>
      universal_newlines (bytes f) = weave [] g xs"
    then have r': "re_sub replace_func (universal_newlines (bytes f)) 0 = (weave insertion g xs, length xs)"
      using r by simp
    have run: "add_calendar_permissions p w =
      (Inr True, w\<lparr>files := (files w)(p @ backup_suffix \<mapsto> f, p \<mapsto> f\<lparr>bytes := weave insertion g xs\<rparr>),
                  journal := journal w @ [Copied p (p @ backup_suffix), Read_text p, Wrote_text p (weave insertion g xs)],
                  stdout := stdout w @ [Created_backup_at (p @ backup_suffix),
                                        Added_to_build_configurations (length xs), Added_keys]\<rparr>)"
      using h by (intro acp_permitted[OF _ _ _ _ _ r' n]) simp_all
    show "fst (add_calendar_permissions p w) = Inr True" by (simp add: run)
    show "map_option bytes (files (snd (add_calendar_permissions p w)) p) = Some (weave insertion g xs)"
      by (simp add: run)
    show "stdout (snd (add_calendar_permissions p w)) =
         stdout w @ [Created_backup_at (p @ backup_suffix),
                     Added_to_build_configurations (length xs), Added_keys]"
      by (simp add: run)
  qed
qed

text \<open>C1 on the sample project file: one anchor statement, count 1.\<close>

theorem patch_inserts_after_every_anchor_witness:
  "scan_ok sample_open [(sample_value, sample_close)] \<and>
   re_sub replace_func sample_text 0 =
     (sample_open @ anchor sample_value @ [newline] @ calendar_keys @ sample_close, 1) \<and>
   stdout (snd (add_calendar_permissions project_path (file_world sample_text))) =
     [Created_backup_at (project_path @ backup_suffix), Added_to_build_configurations 1, Added_keys]"
  using patch_inserts_after_every_anchor[OF sample_scan_ok, of "file_world sample_text" project_path
      "\<lparr>bytes = sample_text, readable = True, writable = True\<rparr>"]
    sample_scan_ok
  by (simp add: file_world_simps sample_text_read sample_text_utf8 sample_text_weave[symmetric])
    (simp add: sample_text_def weave_def insertion_def)

text \<open>
  C2. When the file exists, the call gets through its read (it returns without an
  exception) and the text read holds no match of the pattern, then the call returns
  \<open>False\<close>, the project file is what it was, the backup path holds a copy of it, and the
  only file operations were the copy and the read.
\<close>

theorem no_match_keeps_file:
  assumes "files w p = Some f"
    and "no_anchor_starts (universal_newlines (bytes f)) []"
    and "fst (add_calendar_permissions p w) = Inr ok"
  shows "ok = False \<and>
         files (snd (add_calendar_permissions p w)) p = Some f \<and>
         files (snd (add_calendar_permissions p w)) (p @ backup_suffix) = Some f \<and>
         journal (snd (add_calendar_permissions p w)) =
           journal w @ [Copied p (p @ backup_suffix), Read_text p]"
proof -
  have z: "snd (re_sub replace_func (universal_newlines (bytes f)) 0) = 0"
    by (simp add: re_sub_no_match[OF assms(2)])
  from acp_returns_copy[OF assms(1,3)]
  have run: "add_calendar_permissions p w =
     (Inr False, w\<lparr>files := (files w)(p @ backup_suffix \<mapsto> f),
                   journal := journal w @ [Copied p (p @ backup_suffix), Read_text p],
                   stdout := stdout w @ [Created_backup_at (p @ backup_suffix), Could_not_find_pattern]\<rparr>)"
    by (intro acp_no_match[OF assms(1) _ _ _ _ _ _ z]) simp_all
  show ?thesis
    using assms(1,3) backup_path_neq[of p] by (simp add: run)
qed

text \<open>C2 on a project file without the pattern.\<close>

theorem no_match_keeps_file_witness:
  "no_anchor_starts (universal_newlines plain_text) [] \<and>
   add_calendar_permissions project_path (file_world plain_text) =
     (Inr False,
      \<lparr>files = [project_path \<mapsto> \<lparr>bytes = plain_text, readable = True, writable = True\<rparr>,
                project_path @ backup_suffix \<mapsto>
                  \<lparr>bytes = plain_text, readable = True, writable = True\<rparr>],
       journal = [Copied project_path (project_path @ backup_suffix), Read_text project_path],
       stdout = [Created_backup_at (project_path @ backup_suffix), Could_not_find_pattern],
       refuses = (\<lambda>_. None)\<rparr>)"
proof -
  let ?f = "\<lparr>bytes = plain_text, readable = True, writable = True\<rparr>"
  have h: "no_anchor_starts (universal_newlines (bytes ?f)) []"
    by (simp add: plain_text_read plain_no_anchor)
  have z: "snd (re_sub replace_func (universal_newlines (bytes ?f)) 0) = 0"
    by (simp add: plain_text_read re_sub_no_match[OF plain_no_anchor])
  have run: "add_calendar_permissions project_path (file_world plain_text) =
     (Inr False,
      \<lparr>files = [project_path \<mapsto> ?f, project_path @ backup_suffix \<mapsto> ?f],
       journal = [Copied project_path (project_path @ backup_suffix), Read_text project_path],
       stdout = [Created_backup_at (project_path @ backup_suffix), Could_not_find_pattern],
       refuses = (\<lambda>_. None)\<rparr>)"
  proof -
    have u: "utf8_valid (bytes ?f)" by (simp add: plain_text_utf8)
    have o: "refuses (file_world plain_text) (Open_read project_path) = None"
      "refuses (file_world plain_text) (Open_write (project_path @ backup_suffix)) = None"
      "refuses (file_world plain_text) (Copy_stat (project_path @ backup_suffix)) = None"
      by (simp_all add: file_world_def)
    show ?thesis
      by (simp add: acp_no_match[OF file_world_simps(1) _ file_world_simps(2) o u z])
        (simp add: file_world_def)
  qed
  then have r: "fst (add_calendar_permissions project_path (file_world plain_text)) = Inr False"
    by simp
  from no_match_keeps_file[OF file_world_simps(1) h r] h run show ?thesis by simp
qed




text \<open>
  C4, as stated, fails on the program's input and output: the file is read and written in
  text mode, so a project file with the line ends CR LF comes back with the line ends LF.
  The carriage returns, which belong to no anchor statement, are gone, and the file before
  is not a subsequence of the file after.
\<close>

theorem crlf_counterexample:
  "map_option bytes (files (file_world crlf_text) project_path) = Some crlf_text \<and>
   fst (add_calendar_permissions project_path (file_world crlf_text)) = Inr True \<and>
   map_option bytes
     (files (snd (add_calendar_permissions project_path (file_world crlf_text))) project_path) =
     Some crlf_patched \<and>
   carriage_return \<in> set crlf_text \<and> carriage_return \<notin> set crlf_patched \<and>
   \<not> subseq crlf_text crlf_patched"
proof -
  let ?f = "\<lparr>bytes = crlf_text, readable = True, writable = True\<rparr>"
  have b: "bytes ?f = crlf_text" by simp
  have r: "re_sub replace_func (universal_newlines (bytes ?f)) 0 = (crlf_patched, 1)"
    by (simp only: b crlf_text_read re_sub_weave[OF crlf_scan_ok] crlf_patched_weave) simp
  have u: "utf8_valid (bytes ?f)" by (simp add: crlf_text_utf8)
  have run: "add_calendar_permissions project_path (file_world crlf_text) =
     (Inr True, (file_world crlf_text)\<lparr>files := (files (file_world crlf_text))
          (project_path @ backup_suffix \<mapsto> ?f, project_path \<mapsto> ?f\<lparr>bytes := crlf_patched\<rparr>),
        journal := journal (file_world crlf_text) @ [Copied project_path (project_path @ backup_suffix),
          Read_text project_path, Wrote_text project_path crlf_patched],
        stdout := stdout (file_world crlf_text) @ [Created_backup_at (project_path @ backup_suffix),
          Added_to_build_configurations 1, Added_keys]\<rparr>)"
    by (rule acp_permitted[OF file_world_simps(1) _ file_world_simps(2,5) u r]) simp_all
  have cr: "carriage_return \<in> set crlf_text" by (simp add: crlf_text_def)
  have "\<not> subseq crlf_text crlf_patched"
    using subseq_member[OF _ cr, of crlf_patched] crlf_patched_no_cr by blast
  then show ?thesis
    using cr crlf_patched_no_cr by (simp add: run file_world_simps)
qed

text \<open>
  C4, amended: the text the program works on is the file's content with every CR LF and
  every lone CR read as LF. Every text is a sequence of gaps and matched anchor
  statements, \<open>weave [] g xs\<close> with \<open>scan_ok g xs\<close>, and the substitution returns the same gaps
  and the same anchor statements in the same order, with nothing but the inserted block
  after each anchor statement; so the text read is a subsequence of the output. A call that
  returns \<open>True\<close> has written exactly this output to the file; for a file without carriage
  returns the text read is the file's content, which is then preserved character by
  character in the file written.
\<close>

theorem patch_preserves_text_read:
  "\<exists>g xs. scan_ok g xs \<and> content = weave [] g xs \<and>
          re_sub replace_func content 0 = (weave insertion g xs, length xs) \<and>
          subseq content (weave insertion g xs) \<and>
          (files w p = Some f \<and> universal_newlines (bytes f) = content \<and>
           fst (add_calendar_permissions p w) = Inr True \<longrightarrow>
             map_option bytes (files (snd (add_calendar_permissions p w)) p) =
               Some (weave insertion g xs) \<and>
             (carriage_return \<notin> set (bytes f) \<longrightarrow>
                bytes f = content \<and> subseq (bytes f) (weave insertion g xs)))"
proof -
  obtain g xs where s: "content = weave [] g xs" "scan_ok g xs"
    using split_exists by blast
  have r: "re_sub replace_func content 0 = (weave insertion g xs, length xs)"
    using re_sub_weave[OF s(2), of 0] s(1) by simp
  have sub: "subseq content (weave insertion g xs)"
    using subseq_weave[of g xs insertion] s(1) by simp
  have "map_option bytes (files (snd (add_calendar_permissions p w)) p) =
               Some (weave insertion g xs) \<and>
             (carriage_return \<notin> set (bytes f) \<longrightarrow>
                bytes f = content \<and> subseq (bytes f) (weave insertion g xs))"
    if h: "files w p = Some f \<and> universal_newlines (bytes f) = content \<and>
           fst (add_calendar_permissions p w) = Inr True"
  proof -
    from h have f: "files w p = Some f" and c: "universal_newlines (bytes f) = content"
      and t: "fst (add_calendar_permissions p w) = Inr True" by simp_all
    have "map_option bytes (files (snd (add_calendar_permissions p w)) p) =
               Some (weave insertion g xs)"
      using acp_returns_True[OF f t] c r by simp
    moreover have "bytes f = content \<and> subseq (bytes f) (weave insertion g xs)"
      if "carriage_return \<notin> set (bytes f)"
      using universal_newlines_id[OF that] c sub by simp
    ultimately show ?thesis by blast
  qed
  with s r sub show ?thesis by blast
qed

text \<open>C4, amended, on the sample project file, which has no carriage return.\<close>

theorem patch_preserves_text_read_witness:
  "fst (add_calendar_permissions project_path (file_world sample_text)) = Inr True \<and>
   carriage_return \<notin> set sample_text \<and>
   (\<exists>g xs. scan_ok g xs \<and> sample_text = weave [] g xs \<and>
      re_sub replace_func sample_text 0 = (weave insertion g xs, length xs) \<and>
      map_option bytes
        (files (snd (add_calendar_permissions project_path (file_world sample_text))) project_path) =
        Some (weave insertion g xs) \<and>
      subseq sample_text (weave insertion g xs))"
proof -
  let ?f = "\<lparr>bytes = sample_text, readable = True, writable = True\<rparr>"
  let ?w = "file_world sample_text"
  have r0: "re_sub replace_func sample_text 0 =
      (weave insertion sample_open [(sample_value, sample_close)], 1)"
    using re_sub_weave[OF sample_scan_ok, of 0] by (simp add: sample_text_weave)
  have r: "re_sub replace_func (universal_newlines (bytes ?f)) 0 =
      (weave insertion sample_open [(sample_value, sample_close)], 1)"
    by (simp add: sample_text_read r0)
  have u: "utf8_valid (bytes ?f)" by (simp add: sample_text_utf8)
  have t: "fst (add_calendar_permissions project_path ?w) = Inr True"
    by (subst acp_permitted[OF file_world_simps(1) _ file_world_simps(2,5) u r]) simp_all
  have cr: "carriage_return \<notin> set sample_text"
    by (simp add: sample_text_def sample_open_def sample_close_def sample_value_def anchor_def
      pattern_head_def pattern_tail_def carriage_return_def tab_def newline_def dquote_def)
  have h: "files ?w project_path = Some ?f \<and> universal_newlines (bytes ?f) = sample_text \<and>
           fst (add_calendar_permissions project_path ?w) = Inr True"
    using t by (simp add: file_world_simps sample_text_read)
  from patch_preserves_text_read[of sample_text ?w project_path ?f] h cr
  have "\<exists>g xs. scan_ok g xs \<and> sample_text = weave [] g xs \<and>
      re_sub replace_func sample_text 0 = (weave insertion g xs, length xs) \<and>
      map_option bytes (files (snd (add_calendar_permissions project_path ?w)) project_path) =
        Some (weave insertion g xs) \<and>
      subseq sample_text (weave insertion g xs)"
    by auto
  with t cr show ?thesis by blast
qed

text \<open>
  C5. On a text with at least one anchor statement, a second application of the
  substitution matches the same anchor statements again and leaves two copies of the
  inserted block after each of them; its output differs from the output of the first
  application.
\<close>

theorem patch_not_idempotent:
  assumes "scan_ok g xs" and "xs \<noteq> []"
  shows "re_sub replace_func (fst (re_sub replace_func (weave [] g xs) 0)) 0 =
           (weave (insertion @ insertion) g xs, length xs) \<and>
         fst (re_sub replace_func (fst (re_sub replace_func (weave [] g xs) 0)) 0) \<noteq>
           fst (re_sub replace_func (weave [] g xs) 0)"
proof -
  have 1: "re_sub replace_func (weave [] g xs) 0 = (weave insertion g xs, length xs)"
    using re_sub_weave[OF assms(1), of 0] by simp
  have 2: "re_sub replace_func (weave insertion g xs) 0 = (weave (insertion @ insertion) g xs, length xs)"
    using re_sub_twice[OF assms(1), of 0] by simp
  have "0 < length xs * length insertion" using assms(2) insertion_nonempty by simp
  then have "length (weave (insertion @ insertion) g xs) \<noteq> length (weave insertion g xs)"
    using length_weave[of "insertion @ insertion" g xs] length_weave[of insertion g xs]
    by (simp add: algebra_simps)
  then have "weave (insertion @ insertion) g xs \<noteq> weave insertion g xs" by auto
  with 1 2 show ?thesis by simp
qed

text \<open>C5 on the sample project file.\<close>

theorem patch_not_idempotent_witness:
  "re_sub replace_func (fst (re_sub replace_func sample_text 0)) 0 =
     (sample_open @ anchor sample_value @ [newline] @ calendar_keys @ [newline] @ calendar_keys
        @ sample_close, 1) \<and>
   fst (re_sub replace_func (fst (re_sub replace_func sample_text 0)) 0) \<noteq>
     fst (re_sub replace_func sample_text 0)"
proof -
  have e: "weave [] sample_open [(sample_value, sample_close)] = sample_text"
    by (simp add: sample_text_weave)
  have w2: "weave (insertion @ insertion) sample_open [(sample_value, sample_close)] =
    sample_open @ anchor sample_value @ [newline] @ calendar_keys @ [newline] @ calendar_keys
        @ sample_close"
    by (simp add: weave_def insertion_def)
  have xs: "[(sample_value, sample_close)] \<noteq> []" by simp
  have n: "length [(sample_value, sample_close)] = 1" by simp
  show ?thesis
    using patch_not_idempotent[OF sample_scan_ok xs] unfolding e w2 n .
qed



text \<open>
  C7. When the project path does not exist, the script ends with code 1 and has carried out
  no file operation: no backup is made, no file is written, the files are as before.
\<close>

theorem missing_target_untouched:
  assumes "files w project_path = None"
  shows "fst (script w) = 1 \<and> files (snd (script w)) = files w \<and>
         journal (snd (script w)) = journal w"
  using assms by (simp add: script_def main_def path_exists_def Let_def)

text \<open>C7 on the world without files.\<close>

theorem missing_target_untouched_witness:
  "files empty_world project_path = None \<and> fst (script empty_world) = 1 \<and>
   files (snd (script empty_world)) = Map.empty \<and> journal (snd (script empty_world)) = []"
proof -
  have h: "files empty_world project_path = None" by (simp add: empty_world_def)
  show ?thesis using h missing_target_untouched[OF h] by (simp add: empty_world_def)
qed

text \<open>
  C8. The scenario of one block with the line
  \<^verbatim>\<open>INFOPLIST_KEY_UISupportedInterfaceOrientations_iPhone = "UIInterfaceOrientationPortrait";\<close>
  in a decodable project file that may be read and written, with a backup path that is free
  or may be written, on an operating system that refuses nothing: the file written holds that line, a line break and the two assignment lines with
  the documented descriptions (each behind four tabs), the count printed is 1 and the exit
  code is 0.
\<close>

theorem single_block_scenario:
  assumes "files w project_path = Some f" and "readable f" and "writable f"
    and "backup_writable project_path w" and "os_permits w project_path"
    and "utf8_valid (bytes f)"
    and "universal_newlines (bytes f) = pre @ anchor ''UIInterfaceOrientationPortrait'' @ post"
    and "no_anchor_starts pre (anchor ''UIInterfaceOrientationPortrait'' @ post)"
    and "no_anchor_starts post []"
  shows "fst (script w) = 0 \<and>
    map_option bytes (files (snd (script w)) project_path) =
      Some (pre
        @ ''INFOPLIST_KEY_UISupportedInterfaceOrientations_iPhone = '' @ [dquote]
        @ ''UIInterfaceOrientationPortrait'' @ [dquote] @ '';'' @ [newline]
        @ [tab, tab, tab, tab] @ ''INFOPLIST_KEY_NSCalendarsUsageDescription = '' @ [dquote]
        @ ''This app needs access to your calendar to import events for tracking and visualization.''
        @ [dquote] @ '';'' @ [newline]
        @ [tab, tab, tab, tab] @ ''INFOPLIST_KEY_NSCalendarsFullAccessUsageDescription = '' @ [dquote]
        @ ''This app needs full access to your calendar to import events for tracking and visualization.''
        @ [dquote] @ '';''
        @ post) \<and>
    stdout (snd (script w)) =
      stdout w @ [Fixing_calendar_permissions, Created_backup_at (project_path @ backup_suffix),
                  Added_to_build_configurations 1, Added_keys, Success_next_steps]"
proof -
  let ?v = "''UIInterfaceOrientationPortrait''"
  have v: "valid_value ?v" by (simp add: valid_value_def dquote_def)
  have ok: "scan_ok pre [(?v, post)]" using assms(8,9) v by simp
  have r: "re_sub replace_func (universal_newlines (bytes f)) 0 = (weave insertion pre [(?v, post)], 1)"
    using re_sub_weave[OF ok, of 0] assms(7) by (simp add: weave_def)
  have n: "(1::nat) \<noteq> 0" by simp
  have out: "weave insertion pre [(?v, post)] = pre
        @ ''INFOPLIST_KEY_UISupportedInterfaceOrientations_iPhone = '' @ [dquote]
        @ ''UIInterfaceOrientationPortrait'' @ [dquote] @ '';'' @ [newline]
        @ [tab, tab, tab, tab] @ ''INFOPLIST_KEY_NSCalendarsUsageDescription = '' @ [dquote]
        @ ''This app needs access to your calendar to import events for tracking and visualization.''
        @ [dquote] @ '';'' @ [newline]
        @ [tab, tab, tab, tab] @ ''INFOPLIST_KEY_NSCalendarsFullAccessUsageDescription = '' @ [dquote]
        @ ''This app needs full access to your calendar to import events for tracking and visualization.''
        @ [dquote] @ '';''
        @ post"
    by (simp add: weave_def insertion_def calendar_keys_def anchor_def pattern_head_def
        pattern_tail_def calendar_usage_desc_def calendar_full_access_desc_def)
  show ?thesis
    unfolding out[symmetric]
    by (simp add: script_success[OF assms(1,2,4,5,6) r n assms(3)])
qed

text \<open>C8 on the sample project file.\<close>

theorem single_block_scenario_witness:
  "fst (script (file_world sample_text)) = 0 \<and>
   map_option bytes (files (snd (script (file_world sample_text))) project_path) =
     Some (sample_open @ anchor sample_value @ [newline] @ calendar_keys @ sample_close) \<and>
   stdout (snd (script (file_world sample_text))) =
     [Fixing_calendar_permissions, Created_backup_at (project_path @ backup_suffix),
      Added_to_build_configurations 1, Added_keys, Success_next_steps]"
proof -
  let ?f = "\<lparr>bytes = sample_text, readable = True, writable = True\<rparr>"
  have 2: "readable ?f" and 3: "writable ?f" by simp_all
  have u: "utf8_valid (bytes ?f)" by (simp add: sample_text_utf8)
  have 5: "universal_newlines (bytes ?f) =
      sample_open @ anchor ''UIInterfaceOrientationPortrait'' @ sample_close"
    by (simp add: sample_text_read) (simp add: sample_text_def sample_value_def)
  have 6: "no_anchor_starts sample_open (anchor ''UIInterfaceOrientationPortrait'' @ sample_close)"
    and 7: "no_anchor_starts sample_close []"
    using sample_scan_ok by (simp_all add: sample_value_def)
  have k: "sample_open @ anchor sample_value @ [newline] @ calendar_keys @ sample_close =
        sample_open
        @ ''INFOPLIST_KEY_UISupportedInterfaceOrientations_iPhone = '' @ [dquote]
        @ ''UIInterfaceOrientationPortrait'' @ [dquote] @ '';'' @ [newline]
        @ [tab, tab, tab, tab] @ ''INFOPLIST_KEY_NSCalendarsUsageDescription = '' @ [dquote]
        @ ''This app needs access to your calendar to import events for tracking and visualization.''
        @ [dquote] @ '';'' @ [newline]
        @ [tab, tab, tab, tab] @ ''INFOPLIST_KEY_NSCalendarsFullAccessUsageDescription = '' @ [dquote]
        @ ''This app needs full access to your calendar to import events for tracking and visualization.''
        @ [dquote] @ '';''
        @ sample_close"
    by (simp add: calendar_keys_def anchor_def pattern_head_def sample_value_def
        pattern_tail_def calendar_usage_desc_def calendar_full_access_desc_def)
  show ?thesis
    unfolding k
    using single_block_scenario[OF file_world_simps(1) 2 3 file_world_simps(2,5) u 5 6 7]
    by (simp only: file_world_simps append_Nil)
qed

text \<open>
  C9, as stated, fails: after an anchor line indented by two spaces, the two inserted
  lines are indented by four tabs, not by the two spaces of the line they follow.
\<close>

theorem two_space_indent_counterexample:
  "map indent_of (split_lines (fst (re_sub replace_func (''  '' @ anchor sample_value) 0))) =
     [''  '', four_tabs, four_tabs] \<and> four_tabs \<noteq> ''  ''"
proof -
  have "\<forall>c\<in>set ''  ''. is_indent c" by (simp add: is_indent_def)
  from anchor_line_indents[OF this sample_value_ok] show ?thesis
    by (simp add: four_tabs_def)
qed

text \<open>
  C9, amended: the inserted block is one constant, a line break and two lines that each
  start with exactly four tabs, so after every anchor statement the inserted lines are
  indented by four tabs, whatever the indentation of the anchor line; the indentations agree
  exactly when the anchor line is indented by four tabs.
\<close>

theorem inserted_lines_four_tabs:
  "(scan_ok g xs \<longrightarrow>
      fst (re_sub replace_func (weave [] g xs) 0) =
        weave (newline # usage_line @ newline # full_access_line) g xs) \<and>
   newline \<notin> set usage_line \<and> newline \<notin> set full_access_line \<and>
   indent_of usage_line = four_tabs \<and> indent_of full_access_line = four_tabs \<and>
   ((\<forall>c\<in>set ind. is_indent c) \<and> valid_value v \<and> newline \<notin> set v \<longrightarrow>
      map indent_of (split_lines (fst (re_sub replace_func (ind @ anchor v) 0))) =
        [ind, four_tabs, four_tabs])"
proof (intro conjI impI)
  show "fst (re_sub replace_func (weave [] g xs) 0) =
        weave (newline # usage_line @ newline # full_access_line) g xs" if "scan_ok g xs"
    using re_sub_weave[OF that, of 0] by (simp add: insertion_lines)
  show "map indent_of (split_lines (fst (re_sub replace_func (ind @ anchor v) 0))) =
        [ind, four_tabs, four_tabs]"
    if h: "(\<forall>c\<in>set ind. is_indent c) \<and> valid_value v \<and> newline \<notin> set v"
    using h by (intro anchor_line_indents) simp_all
qed (simp_all add: key_lines)

text \<open>
  C9, amended, on the sample project file and on an anchor line indented by four tabs.
\<close>

theorem inserted_lines_four_tabs_witness:
  "scan_ok sample_open [(sample_value, sample_close)] \<and>
   fst (re_sub replace_func sample_text 0) =
     sample_open @ anchor sample_value @ newline # usage_line @ newline # full_access_line
       @ sample_close \<and>
   map indent_of (split_lines (fst (re_sub replace_func (four_tabs @ anchor sample_value) 0))) =
     [four_tabs, four_tabs, four_tabs]"
proof -
  have i: "\<forall>c\<in>set four_tabs. is_indent c" by (simp add: four_tabs_def is_indent_def)
  note t = inserted_lines_four_tabs[of sample_open "[(sample_value, sample_close)]" four_tabs
      sample_value]
  have 1: "fst (re_sub replace_func sample_text 0) =
     sample_open @ anchor sample_value @ newline # usage_line @ newline # full_access_line
       @ sample_close"
    using t[THEN conjunct1, rule_format, OF sample_scan_ok]
    by (simp add: sample_text_weave[symmetric]) (simp add: weave_def)
  have 2: "map indent_of (split_lines (fst (re_sub replace_func (four_tabs @ anchor sample_value) 0))) =
     [four_tabs, four_tabs, four_tabs]"
    using t i sample_value_ok by blast
  from 1 2 sample_scan_ok show ?thesis by blast
qed

text \<open>
  C10. The anchor statement with the empty value is not matched: the pattern does not match
  at its start, the substitution leaves the statement alone as it is and counts nothing,
  and in a text where no match starts before it, it is copied like any other text, nothing
  is inserted after it and the counter is the one of the rest of the text.
\<close>

theorem empty_value_not_matched:
  "anchor [] = ''INFOPLIST_KEY_UISupportedInterfaceOrientations_iPhone = '' @ [dquote, dquote] @ '';'' \<and>
   match_at (anchor [] @ r) = None \<and>
   re_sub replace_func (anchor []) 0 = (anchor [], 0) \<and>
   (no_anchor_starts pre (anchor [] @ post) \<longrightarrow>
      re_sub replace_func (pre @ anchor [] @ post) n =
        (case re_sub replace_func post n of (out, n') \<Rightarrow> (pre @ anchor [] @ out, n')))"
proof (intro conjI impI)
  show "anchor [] = ''INFOPLIST_KEY_UISupportedInterfaceOrientations_iPhone = '' @ [dquote, dquote] @ '';''"
    by (simp add: anchor_def pattern_head_def pattern_tail_def)
  show "match_at (anchor [] @ r) = None" by (rule empty_anchor_no_match)
  show "re_sub replace_func (anchor []) 0 = (anchor [], 0)"
    by (rule re_sub_no_match[OF empty_anchor_gap])
  show "re_sub replace_func (pre @ anchor [] @ post) n =
        (case re_sub replace_func post n of (out, n') \<Rightarrow> (pre @ anchor [] @ out, n'))"
    if "no_anchor_starts pre (anchor [] @ post)"
    using re_sub_gap[OF that, of replace_func n]
      re_sub_gap[where g="anchor []" and rest=post and repl=replace_func and n=n, OF empty_anchor_gap]
    by (simp split: prod.splits)
qed

text \<open>The empty-valued statement in the place of the sample anchor statement.\<close>

theorem empty_value_not_matched_witness:
  "no_anchor_starts sample_open (anchor [] @ sample_close) \<and>
   re_sub replace_func (sample_open @ anchor [] @ sample_close) 0 =
     (sample_open @ anchor [] @ sample_close, 0)"
proof -
  have h: "no_anchor_starts sample_open (anchor [] @ sample_close)"
    by (simp add: sample_open_def match_at_def pattern_head_def tab_def newline_def dquote_def)
  have "no_anchor_starts sample_close []"
    by (simp add: sample_close_def match_at_def pattern_head_def tab_def newline_def dquote_def)
  then have "re_sub replace_func sample_close 0 = (sample_close, 0)" by (rule re_sub_no_match)
  with h empty_value_not_matched[of sample_close sample_open sample_close 0, THEN conjunct2,
      THEN conjunct2, THEN conjunct2, rule_format, OF h]
  show ?thesis by simp
qed

end
